theory Spec2Isabelle
  imports Complex_Main "HOL-Library.AList"
begin

section \<open>The StatsD handler of bucky (src/bucky/statsd.py)\<close>

text \<open>
  A shallow embedding of \<^verbatim>\<open>StatsDHandler\<close>. Conventions:
  \<^item> a Python \<^verbatim>\<open>dict\<close> is an association list in insertion order; \<^verbatim>\<open>d[k] = v\<close> is
    \<open>AList.update k v\<close> (in place for a key that is present, appended otherwise),
    \<^verbatim>\<open>del d[k]\<close> is \<open>AList.delete k\<close>, a lookup is \<open>map_of\<close>;
  \<^item> a string is a list of 8-bit characters (code points below 256);
  \<^item> a Python \<^verbatim>\<open>float\<close> is idealised as a \<open>real\<close>: every operation is exact, and
    there is no infinity and no NaN;
  \<^item> \<^verbatim>\<open>float(s)\<close> on a string is a parameter \<open>pyfloat :: string \<Rightarrow> real option\<close>
    (\<open>None\<close> when Python raises \<^verbatim>\<open>ValueError\<close>), so every theorem holds for every
    such parser;
  \<^item> an exception that leaves a method is a result \<open>Inl e\<close>;
  \<^item> \<^verbatim>\<open>with self.lock:\<close> sets the field \<open>lock\<close> around its body, and every
    statement that mutates one of the five state maps is recorded, with the value of
    \<open>lock\<close> at that moment, in the history field \<open>mutations\<close>.
\<close>

subsection \<open>Python primitives\<close>

datatype error = IndexError | ZeroDivisionError

text \<open>Sequencing of computations that may raise.\<close>

definition ebind :: "error + 'a \<Rightarrow> ('a \<Rightarrow> error + 'b) \<Rightarrow> error + 'b" where
  "ebind m f = (case m of Inl e \<Rightarrow> Inl e | Inr x \<Rightarrow> f x)"

text \<open>\<^verbatim>\<open>for x in xs: ...\<close> over a body that may raise: the first exception ends the loop.\<close>

fun efold :: "('a \<Rightarrow> 's \<Rightarrow> error + 's) \<Rightarrow> 'a list \<Rightarrow> 's \<Rightarrow> error + 's" where
  "efold f [] s = Inr s"
| "efold f (x # xs) s = ebind (f x s) (efold f xs)"

text \<open>\<^verbatim>\<open>xs[i]\<close>: a negative index counts from the end, an index out of range raises.\<close>

definition py_nth :: "'a list \<Rightarrow> int \<Rightarrow> error + 'a" where
  "py_nth xs i =
     (if 0 \<le> i \<and> i < int (length xs) then Inr (xs ! nat i)
      else if i < 0 \<and> - int (length xs) \<le> i then Inr (xs ! nat (int (length xs) + i))
      else Inl IndexError)"

text \<open>\<^verbatim>\<open>int(x)\<close> on a float truncates towards zero.\<close>

definition py_int :: "real \<Rightarrow> int" where
  "py_int x = (if 0 \<le> x then \<lfloor>x\<rfloor> else \<lceil>x\<rceil>)"

text \<open>\<^verbatim>\<open>"%s" % n\<close> for an integer: its decimal digits, with a minus sign when negative.\<close>

function str_nat :: "nat \<Rightarrow> string" where
  "str_nat n =
     (if n < 10 then [''0123456789'' ! n] else str_nat (n div 10) @ [''0123456789'' ! (n mod 10)])"
  by pat_completeness auto
termination
  by (relation "measure id") auto

declare str_nat.simps [simp del]

definition str_int :: "int \<Rightarrow> string" where
  "str_int i = (if i < 0 then CHR ''-'' # str_nat (nat (- i)) else str_nat (nat i))"

text \<open>
  \<^verbatim>\<open>s.split(sep)\<close> for a separator of one character: the piece before the first
  separator, then the pieces of what follows it; a string without the separator is one
  piece.
\<close>

function py_split :: "char \<Rightarrow> string \<Rightarrow> string list" where
  "py_split sep s =
     (case dropWhile (\<lambda>c. c \<noteq> sep) s of
        [] \<Rightarrow> [s]
      | _ # rest \<Rightarrow> takeWhile (\<lambda>c. c \<noteq> sep) s # py_split sep rest)"
  by pat_completeness auto
termination
proof (relation "measure (\<lambda>(sep, s). length s)")
  show "wf (measure (\<lambda>(sep, s). length s))"
    by simp
next
  fix sep :: char and s x rest
  assume "dropWhile (\<lambda>c. c \<noteq> sep) s = x # rest"
  then have "length rest < length (dropWhile (\<lambda>c. c \<noteq> sep) s)"
    by simp
  also have "\<dots> \<le> length s"
    by (rule length_dropWhile_le)
  finally show "((sep, rest), (sep, s)) \<in> measure (\<lambda>(sep, s). length s)"
    by simp
qed

declare py_split.simps [simp del]

text \<open>
  The characters \<^verbatim>\<open>\s\<close> matches and \<^verbatim>\<open>strip()\<close> removes, for a \<^verbatim>\<open>str\<close> of Python 3,
  among the code points below 256: 9 to 13, 28 to 32, 133 and 160.
\<close>

definition is_space :: "char \<Rightarrow> bool" where
  "is_space c = (let n = (of_char c :: nat) in
     (9 \<le> n \<and> n \<le> 13) \<or> (28 \<le> n \<and> n \<le> 32) \<or> n = 133 \<or> n = 160)"

definition strip :: "string \<Rightarrow> string" where
  "strip s = rev (dropWhile is_space (rev (dropWhile is_space s)))"

subsection \<open>Key sanitising: \<^verbatim>\<open>key_res\<close>\<close>

text \<open>\<^verbatim>\<open>re.compile("\s+").sub("_", key)\<close>: every maximal run of whitespace becomes one underscore.\<close>

function sub_space :: "string \<Rightarrow> string" where
  "sub_space [] = []"
| "sub_space (c # cs) =
     (if is_space c then CHR ''_'' # sub_space (dropWhile is_space cs) else c # sub_space cs)"
  by pat_completeness auto
termination
  by (relation "measure length") (auto simp: length_dropWhile_le less_Suc_eq_le)

text \<open>\<^verbatim>\<open>re.compile("\/").sub("-", key)\<close>.\<close>

definition sub_slash :: "string \<Rightarrow> string" where
  "sub_slash key = map (\<lambda>c. if c = CHR ''/'' then CHR ''-'' else c) key"

text \<open>The character class \<^verbatim>\<open>[a-zA-Z_\-0-9\.]\<close>.\<close>

definition key_char :: "char \<Rightarrow> bool" where
  "key_char c = (let n = (of_char c :: nat) in
     (97 \<le> n \<and> n \<le> 122) \<or> (65 \<le> n \<and> n \<le> 90) \<or> c = CHR ''_'' \<or> c = CHR ''-''
     \<or> (48 \<le> n \<and> n \<le> 57) \<or> c = CHR ''.'')"

text \<open>\<^verbatim>\<open>re.compile("[^a-zA-Z_\-0-9\.]").sub("", key)\<close>.\<close>

definition sub_other :: "string \<Rightarrow> string" where
  "sub_other key = filter key_char key"

definition key_res :: "(string \<Rightarrow> string) list" where
  "key_res = [sub_space, sub_slash, sub_other]"

text \<open>The loop \<^verbatim>\<open>for (rexp, repl) in self.key_res: key = rexp.sub(repl, key)\<close> of \<^verbatim>\<open>handle_key\<close>.\<close>

definition sanitize :: "string \<Rightarrow> string" where
  "sanitize key = fold (\<lambda>sub k. sub k) key_res key"

subsection \<open>Configuration and state\<close>

text \<open>Tags and metadata: a dict from strings to strings or \<^verbatim>\<open>None\<close>, or \<^verbatim>\<open>None\<close> itself.\<close>

type_synonym tags = "(string \<times> string option) list"
type_synonym metadata = "tags option"

text \<open>A value put on the queue: a Python \<^verbatim>\<open>int\<close> or a \<^verbatim>\<open>float\<close>.\<close>

datatype stat = IntStat int | FloatStat real

text \<open>
  A tuple put on the queue, without its leading \<^verbatim>\<open>None\<close> host:
  \<open>(name, stat, stime, None)\<close> is the tuple of four and \<open>(name, stat, stime, Some md)\<close>
  the tuple of five.
\<close>

type_synonym emission = "string \<times> stat \<times> int \<times> tags option"

record cfg =
  statsd_flush_time :: real
  statsd_legacy_namespace :: bool
  statsd_global_prefix :: string
  statsd_prefix_counter :: string
  statsd_prefix_timer :: string
  statsd_prefix_gauge :: string
  statsd_prefix_set :: string
  statsd_metadata :: metadata
  statsd_persistent_gauges :: bool
  statsd_percentile_thresholds :: "real list"
  statsd_delete_idlestats :: bool
  statsd_delete_counters :: bool
  statsd_delete_timers :: bool
  statsd_delete_sets :: bool
  statsd_onlychanged_gauges :: bool
  statsd_timer_mean :: bool
  statsd_timer_upper :: bool
  statsd_timer_lower :: bool
  statsd_timer_count :: bool
  statsd_timer_count_ps :: bool
  statsd_timer_sum :: bool
  statsd_timer_sum_squares :: bool
  statsd_timer_median :: bool
  statsd_timer_std :: bool

datatype state_dict = Timers | Gauges | Counters | Sets | KeysSeen

record handler =
  timers :: "(string \<times> real list) list"
  gauges :: "(string \<times> real) list"
  counters :: "(string \<times> int) list"
  sets :: "(string \<times> string set) list"
  keys_seen :: "(string \<times> metadata) list"
  line :: string
  queue :: "emission list"
  logged :: "string list"
  lock :: bool
  mutations :: "(state_dict \<times> bool) list"

text \<open>The state \<^verbatim>\<open>__init__\<close> builds.\<close>

definition init :: handler where
  "init = \<lparr>timers = [], gauges = [], counters = [], sets = [], keys_seen = [],
     line = [], queue = [], logged = [], lock = False, mutations = []\<rparr>"

text \<open>Entering and leaving \<^verbatim>\<open>with self.lock:\<close>, and the record of one mutation.\<close>

definition acquire :: "handler \<Rightarrow> handler" where
  "acquire h = h\<lparr>lock := True\<rparr>"

definition release :: "handler \<Rightarrow> handler" where
  "release h = h\<lparr>lock := False\<rparr>"

definition mutate :: "state_dict \<Rightarrow> handler \<Rightarrow> handler" where
  "mutate f h = h\<lparr>mutations := mutations h @ [(f, lock h)]\<rparr>"

text \<open>\<^verbatim>\<open>make_name\<close> and the names \<^verbatim>\<open>__init__\<close> derives from the configuration.\<close>

definition make_name :: "string list \<Rightarrow> string" where
  "make_name parts = fold (\<lambda>part name. if part \<noteq> [] then name @ part @ ''.'' else name) parts []"

definition name_global :: "cfg \<Rightarrow> string" where
  "name_global c = (if statsd_legacy_namespace c then ''stats.'' else make_name [statsd_global_prefix c])"

definition name_legacy_rate :: string where
  "name_legacy_rate = ''stats.''"

definition name_legacy_count :: string where
  "name_legacy_count = ''stats_counts.''"

definition name_counter :: "cfg \<Rightarrow> string" where
  "name_counter c = make_name [statsd_global_prefix c, statsd_prefix_counter c]"

definition name_timer :: "cfg \<Rightarrow> string" where
  "name_timer c = (if statsd_legacy_namespace c then ''stats.timers.''
     else make_name [statsd_global_prefix c, statsd_prefix_timer c])"

definition name_gauge :: "cfg \<Rightarrow> string" where
  "name_gauge c = (if statsd_legacy_namespace c then ''stats.gauges.''
     else make_name [statsd_global_prefix c, statsd_prefix_gauge c])"

definition name_set :: "cfg \<Rightarrow> string" where
  "name_set c = (if statsd_legacy_namespace c then ''stats.sets.''
     else make_name [statsd_global_prefix c, statsd_prefix_set c])"

definition delete_counters :: "cfg \<Rightarrow> bool" where
  "delete_counters c = (statsd_delete_idlestats c \<and> statsd_delete_counters c)"

definition delete_timers :: "cfg \<Rightarrow> bool" where
  "delete_timers c = (statsd_delete_idlestats c \<and> statsd_delete_timers c)"

definition delete_sets :: "cfg \<Rightarrow> bool" where
  "delete_sets c = (statsd_delete_idlestats c \<and> statsd_delete_sets c)"

definition onlychanged_gauges :: "cfg \<Rightarrow> bool" where
  "onlychanged_gauges c = (statsd_delete_idlestats c \<and> statsd_onlychanged_gauges c)"

text \<open>The truth value of a metadata object: \<^verbatim>\<open>None\<close> and the empty dict are false.\<close>

definition truthy :: "metadata \<Rightarrow> bool" where
  "truthy md = (case md of None \<Rightarrow> False | Some t \<Rightarrow> t \<noteq> [])"

text \<open>The keys of a dict, and \<^verbatim>\<open>d.update(other)\<close>.\<close>

definition keys :: "('k \<times> 'v) list \<Rightarrow> 'k list" where
  "keys d = map fst d"


subsection \<open>Parsing a line\<close>

text \<open>\<^verbatim>\<open>bad_line\<close> logs the stripped line that \<^verbatim>\<open>handle\<close> stored in \<^verbatim>\<open>self.line\<close>.\<close>

definition bad_line :: "handler \<Rightarrow> handler" where
  "bad_line h = h\<lparr>logged := logged h @ [strip (line h)]\<rparr>"

text \<open>The body of the loop over the comma-separated elements in \<^verbatim>\<open>handle_tags\<close>.\<close>

definition tag_item :: "string \<Rightarrow> tags \<Rightarrow> tags" where
  "tag_item i tags =
     (let kv = py_split CHR ''='' i in
      if length kv > 1 then AList.update (kv ! 0) (Some (kv ! 1)) tags
      else
        (let kv = py_split CHR '':'' i in
         if length kv > 1 then AList.update (kv ! 0) (Some (kv ! 1)) tags
         else AList.update (kv ! 0) None tags))"

definition handle_tags :: "string \<Rightarrow> string \<times> metadata" where
  "handle_tags txt =
     (let bits = py_split CHR ''#'' txt in
      if length bits < 2 then (txt, None)
      else (bits ! 0, Some (fold tag_item (py_split CHR '','' (bits ! 1)) [])))"




text \<open>\<^verbatim>\<open>handle_gauge\<close> reads \<^verbatim>\<open>fields[0]\<close> outside its \<^verbatim>\<open>try\<close>.\<close>

definition handle_gauge :: "(string \<Rightarrow> real option) \<Rightarrow> string \<Rightarrow> string list \<Rightarrow> handler \<Rightarrow> error + handler" where
  "handle_gauge pyfloat key flds h =
     (case flds of
        [] \<Rightarrow> Inl IndexError
      | f0 # _ \<Rightarrow>
          (let valstr = (if f0 \<noteq> [] then f0 else ''0'') in
           case pyfloat valstr of
             None \<Rightarrow> Inr (bad_line h)
           | Some val \<Rightarrow>
               (let delta = (hd valstr \<in> set [CHR ''+'', CHR ''-'']);
                    h1 = acquire h;
                    h2 = (case map_of (gauges h1) key of
                            Some g \<Rightarrow>
                              if delta
                              then mutate Gauges (h1\<lparr>gauges := AList.update key (g + val) (gauges h1)\<rparr>)
                              else mutate Gauges (h1\<lparr>gauges := AList.update key val (gauges h1)\<rparr>)
                          | None \<Rightarrow> mutate Gauges (h1\<lparr>gauges := AList.update key val (gauges h1)\<rparr>))
                in Inr (release h2))))"







subsection \<open>The flush tick\<close>

text \<open>
  \<^verbatim>\<open>enqueue\<close>: the metadata of the key when a (non-empty) key is given, the configured
  metadata otherwise; metadata that is \<^verbatim>\<open>None\<close> or empty is left out of the tuple.
\<close>

definition enqueue :: "cfg \<Rightarrow> string \<Rightarrow> stat \<Rightarrow> int \<Rightarrow> string option \<Rightarrow> handler \<Rightarrow> handler" where
  "enqueue c name st stime metadata_key h =
     (let metadata =
        (case metadata_key of
           None \<Rightarrow> statsd_metadata c
         | Some k \<Rightarrow>
             if k \<noteq> [] then (case map_of (keys_seen h) k of None \<Rightarrow> None | Some md \<Rightarrow> md)
             else statsd_metadata c)
      in if truthy metadata then h\<lparr>queue := queue h @ [(name, st, stime, metadata)]\<rparr>
         else h\<lparr>queue := queue h @ [(name, st, stime, None)]\<rparr>)"

text \<open>
  The two cumulative lists of \<^verbatim>\<open>enqueue_timers\<close>, built by one loop over
  \<^verbatim>\<open>enumerate(v)\<close> that skips index 0.
\<close>

definition cumulate :: "real list \<Rightarrow> real list \<times> real list" where
  "cumulate v =
     fold (\<lambda>(i, val) (cumulative_values, cumul_sum_squares_values).
             if i = 0 then (cumulative_values, cumul_sum_squares_values)
             else (cumulative_values @ [val + cumulative_values ! (i - 1)],
                   cumul_sum_squares_values @ [val * val + cumul_sum_squares_values ! (i - 1)]))
       (enumerate 0 v) ([hd v], [hd v * hd v])"

text \<open>A statement under a condition: \<^verbatim>\<open>if b: stmt\<close>.\<close>

definition cond :: "bool \<Rightarrow> (handler \<Rightarrow> handler) \<Rightarrow> handler \<Rightarrow> handler" where
  "cond b stmt h = (if b then stmt h else h)"

text \<open>
  The body of the loop over \<^verbatim>\<open>self.pct_thresholds\<close>, for the sorted samples \<open>v\<close> of the
  key \<open>k\<close>. An index beyond the samples (a threshold above 100) raises \<^verbatim>\<open>IndexError\<close>.
\<close>

definition enqueue_timer_pct ::
  "cfg \<Rightarrow> string \<Rightarrow> int \<Rightarrow> real list \<Rightarrow> real list \<Rightarrow> real list \<Rightarrow> real \<Rightarrow> handler \<Rightarrow> error + handler" where
  "enqueue_timer_pct c k stime v cumulative_values cumul_sum_squares_values pct_thresh h =
     (let thresh_idx = \<lfloor>pct_thresh / 100 * real (length v)\<rfloor> in
      if thresh_idx = 0 then Inr h
      else
        ebind (py_nth cumulative_values (thresh_idx - 1)) (\<lambda>vsum.
          let t = py_int pct_thresh;
              h1 = cond (statsd_timer_mean c)
                     (enqueue c (name_timer c @ k @ ''.mean_'' @ str_int t)
                        (FloatStat (vsum / real_of_int thresh_idx)) stime (Some k)) h
          in ebind (if statsd_timer_upper c
                    then ebind (py_nth v (thresh_idx - 1)) (\<lambda>vthresh.
                           Inr (enqueue c (name_timer c @ k @ ''.upper_'' @ str_int t)
                                  (FloatStat vthresh) stime (Some k) h1))
                    else Inr h1) (\<lambda>h2.
               let h3 = cond (statsd_timer_count c)
                          (enqueue c (name_timer c @ k @ ''.count_'' @ str_int t)
                             (IntStat thresh_idx) stime (Some k)) h2;
                   h4 = cond (statsd_timer_sum c)
                          (enqueue c (name_timer c @ k @ ''.sum_'' @ str_int t)
                             (FloatStat vsum) stime (Some k)) h3
               in if statsd_timer_sum_squares c
                  then ebind (py_nth cumul_sum_squares_values (thresh_idx - 1)) (\<lambda>vsum_squares.
                         Inr (enqueue c (name_timer c @ k @ ''.sum_squares_'' @ str_int t)
                                (FloatStat vsum_squares) stime (Some k) h4))
                  else Inr h4)))"

text \<open>
  The statistics over all samples of a key (the second half of the non-empty branch), for
  the sorted samples \<open>v\<close>. Dividing by a flush time of zero raises.
\<close>

definition enqueue_timer_full ::
  "cfg \<Rightarrow> string \<Rightarrow> int \<Rightarrow> real list \<Rightarrow> real list \<Rightarrow> real list \<Rightarrow> handler \<Rightarrow> error + handler" where
  "enqueue_timer_full c k stime v cumulative_values cumul_sum_squares_values h =
     (let count = length v; vmin = hd v; vmax = last v in
      ebind (py_nth cumulative_values (int count - 1)) (\<lambda>vsum.
        let mean = vsum / real count;
            h1 = cond (statsd_timer_mean c)
                   (enqueue c (name_timer c @ k @ ''.mean'') (FloatStat mean) stime (Some k)) h;
            h2 = cond (statsd_timer_upper c)
                   (enqueue c (name_timer c @ k @ ''.upper'') (FloatStat vmax) stime (Some k)) h1;
            h3 = cond (statsd_timer_lower c)
                   (enqueue c (name_timer c @ k @ ''.lower'') (FloatStat vmin) stime (Some k)) h2;
            h4 = cond (statsd_timer_count c)
                   (enqueue c (name_timer c @ k @ ''.count'') (IntStat (int count)) stime (Some k)) h3
        in ebind (if statsd_timer_count_ps c
                  then (if statsd_flush_time c = 0 then Inl ZeroDivisionError
                        else Inr (enqueue c (name_timer c @ k @ ''.count_ps'')
                               (FloatStat (real count / statsd_flush_time c)) stime (Some k) h4))
                  else Inr h4) (\<lambda>h5.
             let mid = count div 2;
                 median = (if count mod 2 = 0 then (v ! (mid - 1) + v ! mid) / 2 else v ! mid);
                 h6 = cond (statsd_timer_median c)
                        (enqueue c (name_timer c @ k @ ''.median'') (FloatStat median) stime (Some k)) h5;
                 h7 = cond (statsd_timer_sum c)
                        (enqueue c (name_timer c @ k @ ''.sum'') (FloatStat vsum) stime (Some k)) h6
             in ebind (if statsd_timer_sum_squares c
                       then ebind (py_nth cumul_sum_squares_values (int count - 1)) (\<lambda>vsum_squares.
                              Inr (enqueue c (name_timer c @ k @ ''.sum_squares'')
                                     (FloatStat vsum_squares) stime (Some k) h7))
                       else Inr h7) (\<lambda>h8.
                  let sum_of_diffs = sum_list (map (\<lambda>val. (val - mean)\<^sup>2) v);
                      stddev = sqrt (sum_of_diffs / real count)
                  in Inr (cond (statsd_timer_std c)
                            (enqueue c (name_timer c @ k @ ''.std'') (FloatStat stddev) stime (Some k)) h8)))))"

text \<open>
  The body of the loop of \<^verbatim>\<open>enqueue_timers\<close> up to the reset, for one item \<open>(k, v)\<close>:
  what is put on the queue.
\<close>

definition enqueue_timer :: "cfg \<Rightarrow> int \<Rightarrow> string \<Rightarrow> real list \<Rightarrow> handler \<Rightarrow> error + handler" where
  "enqueue_timer c stime k v h =
     (if v = []
      then Inr (enqueue c (name_timer c @ k @ ''.count_ps'') (FloatStat 0) stime (Some k)
                 (enqueue c (name_timer c @ k @ ''.count'') (IntStat 0) stime (Some k) h))
      else
        (let v = sort v in
         case cumulate v of
           (cumulative_values, cumul_sum_squares_values) \<Rightarrow>
             ebind (efold (enqueue_timer_pct c k stime v cumulative_values cumul_sum_squares_values)
                      (statsd_percentile_thresholds c) h)
               (enqueue_timer_full c k stime v cumulative_values cumul_sum_squares_values)))"

text \<open>
  The \<^verbatim>\<open>enqueue_*\<close> loops run over the items the dict has when the loop starts; their
  bodies assign to keys that are present, which keeps the items and their order.
\<close>

definition enqueue_timers :: "cfg \<Rightarrow> int \<Rightarrow> handler \<Rightarrow> error + int \<times> handler" where
  "enqueue_timers c stime h =
     efold (\<lambda>(k, v) (ret, h).
              ebind (enqueue_timer c stime k v h) (\<lambda>h1.
                Inr (ret + 1, mutate Timers (h1\<lparr>timers := AList.update k [] (timers h1)\<rparr>))))
       (timers h) (0, h)"

definition enqueue_sets :: "cfg \<Rightarrow> int \<Rightarrow> handler \<Rightarrow> int \<times> handler" where
  "enqueue_sets c stime h =
     fold (\<lambda>(k, v) (ret, h).
             (let h1 = enqueue c (name_set c @ k @ ''.count'') (IntStat (int (card v))) stime (Some k) h
              in (ret + 1, mutate Sets (h1\<lparr>sets := AList.update k {} (sets h1)\<rparr>))))
       (sets h) (0, h)"

definition enqueue_gauges :: "cfg \<Rightarrow> int \<Rightarrow> handler \<Rightarrow> int \<times> handler" where
  "enqueue_gauges c stime h =
     fold (\<lambda>(k, v) (ret, h).
             if \<not> onlychanged_gauges c \<or> k \<in> set (keys (keys_seen h))
             then (ret + 1, enqueue c (name_gauge c @ k) (FloatStat v) stime (Some k) h)
             else (ret, h))
       (gauges h) (0, h)"

text \<open>
  The body of the loop of \<^verbatim>\<open>enqueue_counters\<close> up to the reset, for one item \<open>(k, v)\<close>.
  Dividing by a flush time of zero raises.
\<close>

definition enqueue_counter :: "cfg \<Rightarrow> int \<Rightarrow> string \<Rightarrow> int \<Rightarrow> handler \<Rightarrow> error + handler" where
  "enqueue_counter c stime k v h =
     (let stat_rate = (if statsd_legacy_namespace c then name_legacy_rate @ k
                       else name_counter c @ k @ ''.rate'');
          stat_count = (if statsd_legacy_namespace c then name_legacy_count @ k
                        else name_counter c @ k @ ''.count'')
      in if statsd_flush_time c = 0 then Inl ZeroDivisionError
         else Inr (enqueue c stat_count (IntStat v) stime (Some k)
                    (enqueue c stat_rate (FloatStat (real_of_int v / statsd_flush_time c)) stime (Some k) h)))"

definition enqueue_counters :: "cfg \<Rightarrow> int \<Rightarrow> handler \<Rightarrow> error + int \<times> handler" where
  "enqueue_counters c stime h =
     efold (\<lambda>(k, v) (ret, h).
              ebind (enqueue_counter c stime k v h) (\<lambda>h1.
                Inr (ret + 1, mutate Counters (h1\<lparr>counters := AList.update k 0 (counters h1)\<rparr>))))
       (counters h) (0, h)"

text \<open>\<^verbatim>\<open>set(d.keys()) - set(self.keys_seen.keys())\<close>, as a list of the keys to delete.\<close>

definition rem_keys :: "(string \<times> 'v) list \<Rightarrow> (string \<times> metadata) list \<Rightarrow> string list" where
  "rem_keys d seen = filter (\<lambda>k. k \<notin> set (keys seen)) (remdups (keys d))"

text \<open>
  The first part of \<^verbatim>\<open>tick\<close>: under each delete flag, the keys of the map that are not
  in \<^verbatim>\<open>keys_seen\<close> are deleted.
\<close>

definition reap :: "cfg \<Rightarrow> handler \<Rightarrow> handler" where
  "reap c h0 =
     (let h1 = (if delete_timers c
                then fold (\<lambda>k h. mutate Timers (h\<lparr>timers := AList.delete k (timers h)\<rparr>))
                       (rem_keys (timers h0) (keys_seen h0)) h0
                else h0);
          h2 = (if delete_counters c
                then fold (\<lambda>k h. mutate Counters (h\<lparr>counters := AList.delete k (counters h)\<rparr>))
                       (rem_keys (counters h1) (keys_seen h1)) h1
                else h1)
      in if delete_sets c
         then fold (\<lambda>k h. mutate Sets (h\<lparr>sets := AList.delete k (sets h)\<rparr>))
                (rem_keys (sets h2) (keys_seen h2)) h2
         else h2)"

text \<open>
  \<^verbatim>\<open>tick\<close>, at the time \<open>stime\<close>. The new \<^verbatim>\<open>keys_seen\<close> holds the entries of the old one
  whose key is among the kept keys; the code looks \<^verbatim>\<open>keys_seen\<close> up by key only, so the
  order of its items is not observable.
\<close>

definition tick :: "cfg \<Rightarrow> int \<Rightarrow> handler \<Rightarrow> error + handler" where
  "tick c stime h =
     (let name_global_numstats = name_global c @ ''numStats'';
          h3 = reap c (acquire h)
      in ebind (enqueue_timers c stime h3) (\<lambda>(n1, h4).
           ebind (enqueue_counters c stime h4) (\<lambda>(n2, h5).
             case enqueue_gauges c stime h5 of
               (n3, h6) \<Rightarrow>
                 (case enqueue_sets c stime h6 of
                    (n4, h7) \<Rightarrow>
                      (let kept_keys = set (keys (timers h4)) \<union> set (keys (counters h5))
                                         \<union> set (keys (gauges h6)) \<union> set (keys (sets h7));
                           h8 = enqueue c name_global_numstats (IntStat (n1 + n2 + n3 + n4)) stime None h7;
                           h9 = mutate KeysSeen
                                  (h8\<lparr>keys_seen := filter (\<lambda>(k, md). k \<in> kept_keys) (keys_seen h8)\<rparr>)
                       in Inr (release h9))))))"

subsection \<open>Gauge persistence\<close>






subsection \<open>Notions used in the statements\<close>

text \<open>The text before the first separator, and the text between the first two.\<close>

definition piece0 :: "char \<Rightarrow> string \<Rightarrow> string" where
  "piece0 sep s = takeWhile (\<lambda>c. c \<noteq> sep) s"

definition piece1 :: "char \<Rightarrow> string \<Rightarrow> string" where
  "piece1 sep s = takeWhile (\<lambda>c. c \<noteq> sep) (tl (dropWhile (\<lambda>c. c \<noteq> sep) s))"

lemma takeWhile_absent: "sep \<notin> set s \<Longrightarrow> takeWhile (\<lambda>c. c \<noteq> sep) s = s"
  by (induction s) auto


text \<open>The tuple \<^verbatim>\<open>enqueue\<close> puts on the queue for a metric of the key \<open>k\<close>.\<close>

definition emitted :: "cfg \<Rightarrow> handler \<Rightarrow> string \<Rightarrow> stat \<Rightarrow> int \<Rightarrow> string \<Rightarrow> emission" where
  "emitted c h name st stime k = last (queue (enqueue c name st stime (Some k) h))"

text \<open>A list of one element under a condition, and else of none.\<close>

definition opt :: "bool \<Rightarrow> 'a \<Rightarrow> 'a list" where
  "opt b x = (if b then [x] else [])"


text \<open>A configuration for the examples: every timer statistic but the deviation is on.\<close>

definition cfg0 :: cfg where
  "cfg0 = \<lparr>statsd_flush_time = 10, statsd_legacy_namespace = False,
     statsd_global_prefix = ''stats'', statsd_prefix_counter = ''counters'',
     statsd_prefix_timer = ''timers'', statsd_prefix_gauge = ''gauges'',
     statsd_prefix_set = ''sets'', statsd_metadata = None,
     statsd_persistent_gauges = True, statsd_percentile_thresholds = [50],
     statsd_delete_idlestats = False, statsd_delete_counters = False,
     statsd_delete_timers = False, statsd_delete_sets = False,
     statsd_onlychanged_gauges = False,
     statsd_timer_mean = True, statsd_timer_upper = True, statsd_timer_lower = True,
     statsd_timer_count = True, statsd_timer_count_ps = True, statsd_timer_sum = True,
     statsd_timer_sum_squares = True, statsd_timer_median = True, statsd_timer_std = False\<rparr>"







text \<open>
  Between \<open>h\<close> and \<open>h'\<close> the record of mutations grew, and only by mutations made while the
  mutex was held.
\<close>

definition mutated_locked :: "handler \<Rightarrow> handler \<Rightarrow> bool" where
  "mutated_locked h h' = (\<exists>ms. mutations h' = mutations h @ ms \<and> list_all snd ms)"

section \<open>Properties\<close>

subsection \<open>Splitting and sanitising\<close>

lemma key_char_not_space: "key_char c \<Longrightarrow> \<not> is_space c"
  by (auto simp: key_char_def is_space_def Let_def)

lemma key_char_not_slash: "key_char c \<Longrightarrow> c \<noteq> CHR ''/''"
  by (auto simp: key_char_def Let_def)

lemma sub_space_id: "\<forall>c\<in>set s. \<not> is_space c \<Longrightarrow> sub_space s = s"
  by (induction s) auto

lemma sub_slash_id: "\<forall>c\<in>set s. c \<noteq> CHR ''/'' \<Longrightarrow> sub_slash s = s"
  by (induction s) (auto simp: sub_slash_def)

lemma sanitize_unfold: "sanitize x = sub_other (sub_slash (sub_space x))"
  by (simp add: sanitize_def key_res_def)

lemma sanitize_fixed: "\<forall>c\<in>set s. key_char c \<Longrightarrow> sanitize s = s"
  by (simp add: sanitize_unfold sub_space_id sub_slash_id key_char_not_space key_char_not_slash sub_other_def)

text \<open>
  Claim C7. For every string \<open>x\<close>, sanitising twice is sanitising once, every character of
  \<open>sanitize x\<close> is in the class \<^verbatim>\<open>[A-Za-z_\-0-9.]\<close>, and \<open>sanitize\<close> is the three
  substitutions in their order: whitespace runs to an underscore, the slash to a hyphen, every
  other character outside the class deleted.
\<close>

theorem sanitize_idempotent_allowed:
  "sanitize (sanitize x) = sanitize x
   \<and> set (sanitize x) \<subseteq> {c. key_char c}
   \<and> sanitize x = filter key_char (sub_slash (sub_space x))"
proof -
  have a: "\<forall>c\<in>set (sanitize x). key_char c"
    by (simp add: sanitize_unfold sub_other_def)
  then have "sanitize (sanitize x) = sanitize x"
    by (rule sanitize_fixed)
  with a show ?thesis
    by (auto simp: sanitize_unfold sub_other_def)
qed

lemma py_split_none: "sep \<notin> set s \<Longrightarrow> py_split sep s = [s]"
proof -
  assume "sep \<notin> set s"
  then have d: "dropWhile (\<lambda>c. c \<noteq> sep) s = []"
    by auto
  show ?thesis
    by (subst py_split.simps) (simp only: d list.case)
qed

lemma py_split_some:
  "sep \<in> set s \<Longrightarrow>
   py_split sep s = takeWhile (\<lambda>c. c \<noteq> sep) s # py_split sep (tl (dropWhile (\<lambda>c. c \<noteq> sep) s))"
proof -
  assume "sep \<in> set s"
  then have "dropWhile (\<lambda>c. c \<noteq> sep) s \<noteq> []"
    by auto
  then obtain x rest where d: "dropWhile (\<lambda>c. c \<noteq> sep) s = x # rest"
    by (cases "dropWhile (\<lambda>c. c \<noteq> sep) s") auto
  show ?thesis
    by (subst py_split.simps) (simp only: d list.case list.sel)
qed


lemma py_split_nonempty: "py_split sep s \<noteq> []"
  by (subst py_split.simps) (simp split: list.splits)

lemma py_split_length: "(Suc 0 < length (py_split sep s)) = (sep \<in> set s)"
proof (cases "sep \<in> set s")
  case True
  then show ?thesis
    using py_split_nonempty [of sep "tl (dropWhile (\<lambda>c. c \<noteq> sep) s)"]
    by (simp add: py_split_some)
next
  case False
  then show ?thesis
    by (simp add: py_split_none)
qed

lemma py_split_0: "py_split sep s ! 0 = piece0 sep s"
  by (cases "sep \<in> set s") (auto simp: py_split_some py_split_none piece0_def takeWhile_absent)

lemma py_split_1: "sep \<in> set s \<Longrightarrow> py_split sep s ! Suc 0 = piece1 sep s"
  using py_split_0 [of sep "tl (dropWhile (\<lambda>c. c \<noteq> sep) s)"]
  by (simp add: py_split_some piece1_def piece0_def)

text \<open>
  Claim C6, as amended. A tag element is split at every \<^verbatim>\<open>=\<close> when it has one, else at
  every \<^verbatim>\<open>:\<close> when it has one: the key is the text before the first separator and the value
  the text between the first separator and the second (or the end of the element). An element
  with neither is a key mapped to \<^verbatim>\<open>None\<close>.
\<close>

theorem tag_item_first_two_fields:
  "tag_item i tags =
     (if CHR ''='' \<in> set i then AList.update (piece0 CHR ''='' i) (Some (piece1 CHR ''='' i)) tags
      else if CHR '':'' \<in> set i then AList.update (piece0 CHR '':'' i) (Some (piece1 CHR '':'' i)) tags
      else AList.update i None tags)"
  by (simp add: tag_item_def Let_def py_split_length py_split_0 py_split_1 py_split_none)

text \<open>
  The element \<^verbatim>\<open>k=v1=v2\<close> yields the value \<^verbatim>\<open>v1\<close>, not \<^verbatim>\<open>v1=v2\<close>: the split is not a
  split at the first separator only.
\<close>

theorem tag_item_counterexample:
  "tag_item ''k=v1=v2'' [] = [(''k'', Some ''v1'')]
   \<and> tag_item ''k=v1=v2'' [] \<noteq> [(''k'', Some ''v1=v2'')]
   \<and> handle_tags ''m:1|c|#k=v1=v2'' = (''m:1|c|'', Some [(''k'', Some ''v1'')])"
  by (simp add: handle_tags_def tag_item_def py_split.simps)

subsection \<open>Projections of the state\<close>

lemma enqueue_maps [simp]:
  "timers (enqueue c name st stime mk h) = timers h"
  "gauges (enqueue c name st stime mk h) = gauges h"
  "counters (enqueue c name st stime mk h) = counters h"
  "sets (enqueue c name st stime mk h) = sets h"
  "keys_seen (enqueue c name st stime mk h) = keys_seen h"
  "lock (enqueue c name st stime mk h) = lock h"
  "mutations (enqueue c name st stime mk h) = mutations h"
  "logged (enqueue c name st stime mk h) = logged h"
  "line (enqueue c name st stime mk h) = line h"
  by (simp_all add: enqueue_def Let_def)

lemma mutate_maps [simp]:
  "timers (mutate f h) = timers h"
  "gauges (mutate f h) = gauges h"
  "counters (mutate f h) = counters h"
  "sets (mutate f h) = sets h"
  "keys_seen (mutate f h) = keys_seen h"
  "lock (mutate f h) = lock h"
  "queue (mutate f h) = queue h"
  "logged (mutate f h) = logged h"
  "line (mutate f h) = line h"
  "mutations (mutate f h) = mutations h @ [(f, lock h)]"
  by (simp_all add: mutate_def)

lemma acquire_maps [simp]:
  "timers (acquire h) = timers h"
  "gauges (acquire h) = gauges h"
  "counters (acquire h) = counters h"
  "sets (acquire h) = sets h"
  "keys_seen (acquire h) = keys_seen h"
  "lock (acquire h) = True"
  "queue (acquire h) = queue h"
  "logged (acquire h) = logged h"
  "line (acquire h) = line h"
  "mutations (acquire h) = mutations h"
  by (simp_all add: acquire_def)

lemma release_maps [simp]:
  "timers (release h) = timers h"
  "gauges (release h) = gauges h"
  "counters (release h) = counters h"
  "sets (release h) = sets h"
  "keys_seen (release h) = keys_seen h"
  "lock (release h) = False"
  "queue (release h) = queue h"
  "logged (release h) = logged h"
  "line (release h) = line h"
  "mutations (release h) = mutations h"
  by (simp_all add: release_def)

lemma bad_line_maps [simp]:
  "timers (bad_line h) = timers h"
  "gauges (bad_line h) = gauges h"
  "counters (bad_line h) = counters h"
  "sets (bad_line h) = sets h"
  "keys_seen (bad_line h) = keys_seen h"
  "lock (bad_line h) = lock h"
  "queue (bad_line h) = queue h"
  "line (bad_line h) = line h"
  "mutations (bad_line h) = mutations h"
  "logged (bad_line h) = logged h @ [strip (line h)]"
  by (simp_all add: bad_line_def)

subsection \<open>Gauges\<close>

text \<open>
  Claim C5. For a gauge sample whose value string \<^verbatim>\<open>fields[0] or "0"\<close> parses to \<open>val\<close>:
  when the raw string \<^verbatim>\<open>fields[0]\<close> starts with \<^verbatim>\<open>+\<close> or \<^verbatim>\<open>-\<close> and the key has a gauge
  \<open>g\<close>, the gauge becomes \<open>g + val\<close>; otherwise it becomes \<open>val\<close>, in particular for a
  signed sample on a key without a gauge. No other map changes.
\<close>

theorem handle_gauge_delta_or_absolute:
  assumes "pyfloat (if f0 \<noteq> [] then f0 else ''0'') = Some val"
  shows "\<exists>h'. handle_gauge pyfloat key (f0 # fs) h = Inr h'
     \<and> gauges h' = AList.update key
          (case map_of (gauges h) key of
             Some g \<Rightarrow> if f0 \<noteq> [] \<and> (hd f0 = CHR ''+'' \<or> hd f0 = CHR ''-'') then g + val else val
           | None \<Rightarrow> val)
          (gauges h)
     \<and> timers h' = timers h \<and> counters h' = counters h \<and> sets h' = sets h
     \<and> keys_seen h' = keys_seen h"
proof (cases "f0 = []")
  case True
  with assms show ?thesis
    by (simp add: handle_gauge_def Let_def split: option.splits)
next
  case False
  with assms show ?thesis
    by (simp add: handle_gauge_def Let_def split: option.splits)
qed

text \<open>
  The sample \<^verbatim>\<open>+5\<close> stores 5 for a key without a gauge and 15 for a key whose gauge is 10.
\<close>

theorem handle_gauge_witness:
  "(\<exists>h'. handle_gauge (\<lambda>s. if s = ''+5'' then Some 5 else None) ''temp'' [''+5'', ''g''] init = Inr h'
      \<and> gauges h' = [(''temp'', 5)])
   \<and> (\<exists>h'. handle_gauge (\<lambda>s. if s = ''+5'' then Some 5 else None) ''temp'' [''+5'', ''g'']
          (init\<lparr>gauges := [(''temp'', 10)]\<rparr>) = Inr h'
      \<and> gauges h' = [(''temp'', 15)])"
proof -
  have p: "(\<lambda>s. if s = ''+5'' then Some (5::real) else None) (if ''+5'' \<noteq> [] then ''+5'' else ''0'') = Some 5"
    by simp
  from handle_gauge_delta_or_absolute [of "\<lambda>s. if s = ''+5'' then Some 5 else None" "''+5''" 5 "''temp''" "[''g'']" init, OF p]
  have a: "\<exists>h'. handle_gauge (\<lambda>s. if s = ''+5'' then Some 5 else None) ''temp'' [''+5'', ''g''] init = Inr h'
      \<and> gauges h' = [(''temp'', 5)]"
    by (auto simp: init_def)
  from handle_gauge_delta_or_absolute [of "\<lambda>s. if s = ''+5'' then Some 5 else None" "''+5''" 5 "''temp''" "[''g'']"
      "init\<lparr>gauges := [(''temp'', 10)]\<rparr>", OF p]
  have b: "\<exists>h'. handle_gauge (\<lambda>s. if s = ''+5'' then Some 5 else None) ''temp'' [''+5'', ''g'']
          (init\<lparr>gauges := [(''temp'', 10)]\<rparr>) = Inr h'
      \<and> gauges h' = [(''temp'', 15)]"
    by (auto simp: init_def)
  from a b show ?thesis
    by blast
qed

subsection \<open>Timer statistics\<close>

lemma cumulate_step:
  "length (cs :: real list) = n \<Longrightarrow> length (qs :: real list) = n \<Longrightarrow> 0 < n \<Longrightarrow>
   fold (\<lambda>(i, val) (cumulative_values, cumul_sum_squares_values).
             if i = 0 then (cumulative_values, cumul_sum_squares_values)
             else (cumulative_values @ [val + cumulative_values ! (i - 1)],
                   cumul_sum_squares_values @ [val * val + cumul_sum_squares_values ! (i - 1)]))
       (enumerate n ys) (cs, qs)
   = (cs @ map (\<lambda>j. last cs + sum_list (take (Suc j) ys)) [0..<length ys],
      qs @ map (\<lambda>j. last qs + sum_list (map (\<lambda>x. x * x) (take (Suc j) ys))) [0..<length ys])"
  (is "_ \<Longrightarrow> _ \<Longrightarrow> _ \<Longrightarrow> fold ?F _ _ = _")
proof (induction ys arbitrary: cs qs n)
  case Nil
  then show ?case by simp
next
  case (Cons y ys)
  from Cons.prems have ne: "cs \<noteq> []" "qs \<noteq> []"
    by auto
  have l: "cs ! (n - Suc 0) = last cs" "qs ! (n - Suc 0) = last qs"
    using ne Cons.prems by (auto simp: last_conv_nth)
  have up: "[0..<Suc (length ys)] = 0 # map Suc [0..<length ys]"
    by (simp add: upt_conv_Cons map_Suc_upt del: upt_Suc)
  have "fold ?F (enumerate n (y # ys)) (cs, qs)
      = fold ?F (enumerate (Suc n) ys) (cs @ [y + last cs], qs @ [y * y + last qs])"
    using Cons.prems by (simp add: l)
  also have "\<dots> = ((cs @ [y + last cs]) @
        map (\<lambda>j. last (cs @ [y + last cs]) + sum_list (take (Suc j) ys)) [0..<length ys],
      (qs @ [y * y + last qs]) @
        map (\<lambda>j. last (qs @ [y * y + last qs]) + sum_list (map (\<lambda>x. x * x) (take (Suc j) ys)))
          [0..<length ys])"
    using Cons.prems by (intro Cons.IH) simp_all
  also have "\<dots> = (cs @ map (\<lambda>j. last cs + sum_list (take (Suc j) (y # ys))) [0..<length (y # ys)],
      qs @ map (\<lambda>j. last qs + sum_list (map (\<lambda>x. x * x) (take (Suc j) (y # ys)))) [0..<length (y # ys)])"
    by (simp add: up comp_def add_ac del: upt_Suc)
  finally show ?case .
qed

lemma cumulate_eq:
  "cumulate (x # xs) =
     (map (\<lambda>j. sum_list (take (Suc j) (x # xs))) [0..<Suc (length xs)],
      map (\<lambda>j. sum_list (map (\<lambda>x. x * x) (take (Suc j) (x # xs)))) [0..<Suc (length xs)])"
proof -
  have up: "[0..<Suc (length xs)] = 0 # map Suc [0..<length xs]"
    by (simp add: upt_conv_Cons map_Suc_upt del: upt_Suc)
  show ?thesis
    unfolding cumulate_def
    by (simp add: enumerate_simps cumulate_step [of "[x]" "Suc 0" "[x * x]" xs, simplified] up comp_def
        del: upt_Suc)
qed

lemma cumulate_nth:
  assumes "v \<noteq> []" "i < length v"
  shows "length (fst (cumulate v)) = length v"
    and "length (snd (cumulate v)) = length v"
    and "fst (cumulate v) ! i = sum_list (take (Suc i) v)"
    and "snd (cumulate v) ! i = sum_list (map (\<lambda>x. x * x) (take (Suc i) v))"
proof -
  from assms obtain x xs where v: "v = x # xs"
    by (cases v) auto
  show "length (fst (cumulate v)) = length v" "length (snd (cumulate v)) = length v"
    by (simp_all add: v cumulate_eq del: upt_Suc)
  from assms have i: "i < Suc (length xs)"
    by (simp add: v)
  show "fst (cumulate v) ! i = sum_list (take (Suc i) v)"
    unfolding v cumulate_eq fst_conv using i by (subst nth_map_upt) simp_all
  show "snd (cumulate v) ! i = sum_list (map (\<lambda>x. x * x) (take (Suc i) v))"
    unfolding v cumulate_eq snd_conv using i by (subst nth_map_upt) simp_all
qed

lemma enqueue_emitted:
  "enqueue c name st stime (Some k) h = h\<lparr>queue := queue h @ [emitted c h name st stime k]\<rparr>"
  by (simp add: emitted_def enqueue_def Let_def)

lemma emitted_queue [simp]: "emitted c (h\<lparr>queue := q\<rparr>) = emitted c h"
  by (simp add: emitted_def enqueue_def Let_def fun_eq_iff)

lemma emitted_name [simp]:
  "fst (emitted c h name st stime k) = name"
  "fst (snd (emitted c h name st stime k)) = st"
  "fst (snd (snd (emitted c h name st stime k))) = stime"
  by (simp_all add: emitted_def enqueue_def Let_def)

lemma cond_enqueue:
  "cond b (enqueue c name st stime (Some k)) h
     = h\<lparr>queue := queue h @ opt b (emitted c h name st stime k)\<rparr>"
  by (simp add: cond_def opt_def enqueue_emitted)

lemma opt_simps [simp]: "opt True x = [x]" "opt False x = []"
  by (simp_all add: opt_def)

lemma set_opt: "(e \<in> set (opt b x)) = (b \<and> e = x)"
  by (cases b) simp_all

lemma thresh_idx_le:
  assumes "pct \<le> 100"
  shows "\<lfloor>pct / 100 * real n\<rfloor> \<le> int n"
proof -
  have "pct / 100 * real n \<le> 1 * real n"
    using assms by (intro mult_right_mono) simp_all
  then have "\<lfloor>pct / 100 * real n\<rfloor> \<le> \<lfloor>real n\<rfloor>"
    by (intro floor_mono) simp
  then show ?thesis
    by simp
qed

lemma py_nth_in_range: "0 \<le> i \<Longrightarrow> i < int (length xs) \<Longrightarrow> py_nth xs i = Inr (xs ! nat i)"
  by (simp add: py_nth_def)






text \<open>What one round of the threshold loop adds to the queue, whatever the threshold.\<close>

lemma enqueue_timer_pct_queue:
  assumes "enqueue_timer_pct c k stime v cs qs pct h = Inr h'"
  shows "\<exists>P. h' = h\<lparr>queue := queue h @ P\<rparr>
     \<and> (\<forall>e\<in>set P. \<exists>s\<in>set [''.mean_'', ''.upper_'', ''.count_'', ''.sum_'', ''.sum_squares_''].
            \<exists>t. fst e = name_timer c @ k @ s @ str_int t)"
proof (cases "\<lfloor>pct / 100 * real (length v)\<rfloor> = 0")
  case True
  with assms have "h' = h"
    by (simp add: enqueue_timer_pct_def)
  then have "h' = h\<lparr>queue := queue h @ []\<rparr>"
    by simp
  then show ?thesis
    by (intro exI [of _ "[]"]) simp
next
  case False
  define idx where "idx = \<lfloor>pct / 100 * real (length v)\<rfloor>"
  define t where "t = py_int pct"
  from False have nz: "idx \<noteq> 0"
    by (simp add: idx_def)
  from assms nz obtain vsum where v1: "py_nth cs (idx - 1) = Inr vsum"
    unfolding enqueue_timer_pct_def idx_def [symmetric] Let_def
    by (cases "py_nth cs (idx - 1)") (simp_all add: ebind_def)
  define L1 where "L1 = (opt (statsd_timer_mean c)
               (emitted c h (name_timer c @ k @ ''.mean_'' @ str_int t) (FloatStat (vsum / real_of_int idx)) stime k))"
  define L3 where "L3 = (opt (statsd_timer_count c)
               (emitted c h (name_timer c @ k @ ''.count_'' @ str_int t) (IntStat idx) stime k))"
  define L4 where "L4 = (opt (statsd_timer_sum c)
               (emitted c h (name_timer c @ k @ ''.sum_'' @ str_int t) (FloatStat vsum) stime k))"
  have r: "enqueue_timer_pct c k stime v cs qs pct h =
     ebind (if statsd_timer_upper c
            then ebind (py_nth v (idx - 1)) (\<lambda>vthresh.
                   Inr (h\<lparr>queue := queue h @ L1 @
                     [emitted c h (name_timer c @ k @ ''.upper_'' @ str_int t) (FloatStat vthresh) stime k]\<rparr>))
            else Inr (h\<lparr>queue := queue h @ L1\<rparr>)) (\<lambda>h2.
       if statsd_timer_sum_squares c
       then ebind (py_nth qs (idx - 1)) (\<lambda>vsum_squares.
              Inr (h2\<lparr>queue := queue h2 @ L3 @ L4 @
                [emitted c h (name_timer c @ k @ ''.sum_squares_'' @ str_int t)
                   (FloatStat vsum_squares) stime k]\<rparr>))
       else Inr (h2\<lparr>queue := queue h2 @ L3 @ L4\<rparr>))"
    unfolding enqueue_timer_pct_def idx_def [symmetric] t_def [symmetric] Let_def
    using nz
    apply (simp add: v1 ebind_def cond_enqueue enqueue_emitted L1_def L3_def L4_def
        split del: if_split cong: if_cong sum.case_cong)
    apply (simp add: cond_enqueue enqueue_emitted split: sum.splits)
    done
  obtain L2 where l2: "(if statsd_timer_upper c
            then ebind (py_nth v (idx - 1)) (\<lambda>vthresh.
                   Inr (h\<lparr>queue := queue h @ L1 @
                     [emitted c h (name_timer c @ k @ ''.upper_'' @ str_int t) (FloatStat vthresh) stime k]\<rparr>))
            else Inr (h\<lparr>queue := queue h @ L1\<rparr>)) = Inr (h\<lparr>queue := queue h @ L1 @ L2\<rparr>)"
     and n2: "\<forall>e\<in>set L2. fst e = name_timer c @ k @ ''.upper_'' @ str_int t"
  proof (cases "statsd_timer_upper c")
    case True
    with assms r obtain vthresh where "py_nth v (idx - 1) = Inr vthresh"
      by (cases "py_nth v (idx - 1)") (simp_all add: ebind_def)
    with True that [of "[emitted c h (name_timer c @ k @ ''.upper_'' @ str_int t) (FloatStat vthresh) stime k]"]
    show ?thesis
      by (simp add: ebind_def)
  next
    case False
    with that [of "[]"] show ?thesis
      by simp
  qed
  obtain L5 where l5: "h' = h\<lparr>queue := queue h @ L1 @ L2 @ L3 @ L4 @ L5\<rparr>"
     and n5: "\<forall>e\<in>set L5. fst e = name_timer c @ k @ ''.sum_squares_'' @ str_int t"
  proof (cases "statsd_timer_sum_squares c")
    case True
    with assms r l2 obtain vsq where "py_nth qs (idx - 1) = Inr vsq"
      by (cases "py_nth qs (idx - 1)") (simp_all add: ebind_def)
    with True assms r l2
      that [of "[emitted c h (name_timer c @ k @ ''.sum_squares_'' @ str_int t) (FloatStat vsq) stime k]"]
    show ?thesis
      by (simp add: ebind_def)
  next
    case False
    with assms r l2 that [of "[]"] show ?thesis
      by (simp add: ebind_def)
  qed
  have "\<forall>e\<in>set (L1 @ L2 @ L3 @ L4 @ L5).
      \<exists>s\<in>set [''.mean_'', ''.upper_'', ''.count_'', ''.sum_'', ''.sum_squares_''].
        \<exists>t. fst e = name_timer c @ k @ s @ str_int t"
    using n2 n5 by (auto simp: L1_def L3_def L4_def set_opt)
  with l5 show ?thesis
    by blast
qed

lemma enqueue_timer_pcts_queue:
  assumes "efold (enqueue_timer_pct c k stime v cs qs) pcts h = Inr h'"
  shows "\<exists>P. h' = h\<lparr>queue := queue h @ P\<rparr>
     \<and> (\<forall>e\<in>set P. \<exists>s\<in>set [''.mean_'', ''.upper_'', ''.count_'', ''.sum_'', ''.sum_squares_''].
            \<exists>t. fst e = name_timer c @ k @ s @ str_int t)"
  using assms
proof (induction pcts arbitrary: h)
  case Nil
  then have "h' = h\<lparr>queue := queue h @ []\<rparr>"
    by simp
  then show ?case
    by (intro exI [of _ "[]"]) simp
next
  case (Cons pct pcts)
  from Cons.prems obtain h1 where
    a: "enqueue_timer_pct c k stime v cs qs pct h = Inr h1" and
    b: "efold (enqueue_timer_pct c k stime v cs qs) pcts h1 = Inr h'"
    by (cases "enqueue_timer_pct c k stime v cs qs pct h") (simp_all add: ebind_def)
  from enqueue_timer_pct_queue [OF a] obtain P where
    p: "h1 = h\<lparr>queue := queue h @ P\<rparr>" and
    pn: "\<forall>e\<in>set P. \<exists>s\<in>set [''.mean_'', ''.upper_'', ''.count_'', ''.sum_'', ''.sum_squares_''].
            \<exists>t. fst e = name_timer c @ k @ s @ str_int t"
    by blast
  from Cons.IH [OF b] obtain Q where
    q: "h' = h1\<lparr>queue := queue h1 @ Q\<rparr>" and
    qn: "\<forall>e\<in>set Q. \<exists>s\<in>set [''.mean_'', ''.upper_'', ''.count_'', ''.sum_'', ''.sum_squares_''].
            \<exists>t. fst e = name_timer c @ k @ s @ str_int t"
    by blast
  from p q have "h' = h\<lparr>queue := queue h @ (P @ Q)\<rparr>"
    by simp
  moreover from pn qn have "\<forall>e\<in>set (P @ Q).
      \<exists>s\<in>set [''.mean_'', ''.upper_'', ''.count_'', ''.sum_'', ''.sum_squares_''].
        \<exists>t. fst e = name_timer c @ k @ s @ str_int t"
    by auto
  ultimately show ?case
    by blast
qed

lemma emitted_fstD: "(a, r) = emitted c h name st stime k \<Longrightarrow> a = name"
  by (metis emitted_name(1) fst_conv)

text \<open>What the statistics over all samples add to the queue.\<close>

lemma enqueue_timer_full_queue:
  assumes "enqueue_timer_full c k stime v cs qs h0 = Inr h'" and "emitted c h0 = emitted c h"
  shows "\<exists>A B. h' = h0\<lparr>queue := queue h0 @ A
        @ (opt (statsd_timer_count c)
               (emitted c h (name_timer c @ k @ ''.count'') (IntStat (int (length v))) stime k))
        @ (opt (statsd_timer_count_ps c)
               (emitted c h (name_timer c @ k @ ''.count_ps'')
                   (FloatStat (real (length v) / statsd_flush_time c)) stime k))
        @ B\<rparr>
     \<and> (\<forall>e\<in>set (A @ B). \<exists>s\<in>set [''.mean'', ''.upper'', ''.lower'', ''.median'', ''.sum'',
            ''.sum_squares'', ''.std'']. fst e = name_timer c @ k @ s)"
proof -
  from assms(1) obtain vsum where v1: "py_nth cs (int (length v) - 1) = Inr vsum"
    unfolding enqueue_timer_full_def Let_def
    by (cases "py_nth cs (int (length v) - 1)") (simp_all add: ebind_def)
  define A where "A =
     (opt (statsd_timer_mean c)
               (emitted c h (name_timer c @ k @ ''.mean'') (FloatStat (vsum / real (length v))) stime k))
     @ (opt (statsd_timer_upper c)
               (emitted c h (name_timer c @ k @ ''.upper'') (FloatStat (last v)) stime k))
     @ (opt (statsd_timer_lower c)
               (emitted c h (name_timer c @ k @ ''.lower'') (FloatStat (hd v)) stime k))"
  define C where "C = (opt (statsd_timer_count c)
               (emitted c h (name_timer c @ k @ ''.count'') (IntStat (int (length v))) stime k))"
  define D where "D = (opt (statsd_timer_count_ps c)
               (emitted c h (name_timer c @ k @ ''.count_ps'')
                   (FloatStat (real (length v) / statsd_flush_time c)) stime k))"
  define E where "E =
     (opt (statsd_timer_median c)
               (emitted c h (name_timer c @ k @ ''.median'')
              (FloatStat (if length v mod 2 = 0
                          then (v ! (length v div 2 - 1) + v ! (length v div 2)) / 2
                          else v ! (length v div 2))) stime k))
     @ (opt (statsd_timer_sum c)
               (emitted c h (name_timer c @ k @ ''.sum'') (FloatStat vsum) stime k))"
  define G where "G =
     (opt (statsd_timer_std c)
               (emitted c h (name_timer c @ k @ ''.std'')
              (FloatStat (sqrt (sum_list (map (\<lambda>val. (val - vsum / real (length v))\<^sup>2) v)
                 / real (length v)))) stime k))"
  have e: "emitted c (h0\<lparr>queue := q\<rparr>) = emitted c h" for q
    using assms(2) by simp
  have r: "enqueue_timer_full c k stime v cs qs h0 =
     ebind (if statsd_timer_count_ps c \<and> statsd_flush_time c = 0 then Inl ZeroDivisionError
            else Inr (h0\<lparr>queue := queue h0 @ A @ C @ D\<rparr>)) (\<lambda>h5.
       ebind (if statsd_timer_sum_squares c
              then ebind (py_nth qs (int (length v) - 1)) (\<lambda>vsum_squares.
                     Inr (h5\<lparr>queue := queue h5 @ E @
                       [emitted c h (name_timer c @ k @ ''.sum_squares'') (FloatStat vsum_squares) stime k]\<rparr>))
              else Inr (h5\<lparr>queue := queue h5 @ E\<rparr>)) (\<lambda>h8.
         Inr (h8\<lparr>queue := queue h8 @ G\<rparr>)))"
    unfolding enqueue_timer_full_def Let_def
    by (simp add: v1 ebind_def cond_enqueue enqueue_emitted e assms(2) A_def C_def D_def E_def G_def
        split: sum.splits)
  from assms(1) r have d: "\<not> (statsd_timer_count_ps c \<and> statsd_flush_time c = 0)"
    by (auto simp: ebind_def)
  obtain F where f: "h' = h0\<lparr>queue := queue h0 @ A @ C @ D @ E @ F @ G\<rparr>"
     and fn: "\<forall>e\<in>set F. fst e = name_timer c @ k @ ''.sum_squares''"
  proof (cases "statsd_timer_sum_squares c")
    case True
    with assms(1) r d obtain vsq where "py_nth qs (int (length v) - 1) = Inr vsq"
      by (cases "py_nth qs (int (length v) - 1)") (simp_all add: ebind_def)
    with True assms(1) r d
      that [of "[emitted c h (name_timer c @ k @ ''.sum_squares'') (FloatStat vsq) stime k]"]
    show ?thesis
      by (simp add: ebind_def)
  next
    case False
    with assms(1) r d that [of "[]"] show ?thesis
      by (simp add: ebind_def)
  qed
  have "\<forall>e\<in>set (A @ (E @ F @ G)). \<exists>s\<in>set [''.mean'', ''.upper'', ''.lower'', ''.median'', ''.sum'',
            ''.sum_squares'', ''.std'']. fst e = name_timer c @ k @ s"
    using fn by (auto simp: A_def E_def G_def set_opt dest!: emitted_fstD)
  moreover from f have "h' = h0\<lparr>queue := queue h0 @ A @ C @ D @ (E @ F @ G)\<rparr>"
    by simp
  ultimately show ?thesis
    unfolding C_def D_def by blast
qed

lemma enqueue_timer_nonempty:
  assumes "v \<noteq> []" and "enqueue_timer c stime k v h = Inr h'"
  shows "\<exists>P A B. h' = h\<lparr>queue := queue h @ P @ A
        @ opt (statsd_timer_count c)
            (emitted c h (name_timer c @ k @ ''.count'') (IntStat (int (length v))) stime k)
        @ opt (statsd_timer_count_ps c)
            (emitted c h (name_timer c @ k @ ''.count_ps'')
               (FloatStat (real (length v) / statsd_flush_time c)) stime k)
        @ B\<rparr>
     \<and> (\<forall>e\<in>set P. \<exists>s\<in>set [''.mean_'', ''.upper_'', ''.count_'', ''.sum_'', ''.sum_squares_''].
            \<exists>t. fst e = name_timer c @ k @ s @ str_int t)
     \<and> (\<forall>e\<in>set (A @ B). \<exists>s\<in>set [''.mean'', ''.upper'', ''.lower'', ''.median'', ''.sum'',
            ''.sum_squares'', ''.std'']. fst e = name_timer c @ k @ s)"
proof -
  obtain cs qs where cq: "cumulate (sort v) = (cs, qs)"
    by (cases "cumulate (sort v)")
  from assms cq obtain h1 where
    a: "efold (enqueue_timer_pct c k stime (sort v) cs qs) (statsd_percentile_thresholds c) h = Inr h1" and
    b: "enqueue_timer_full c k stime (sort v) cs qs h1 = Inr h'"
    unfolding enqueue_timer_def Let_def
    by (cases "efold (enqueue_timer_pct c k stime (sort v) cs qs) (statsd_percentile_thresholds c) h")
      (simp_all add: ebind_def)
  from enqueue_timer_pcts_queue [OF a] obtain P where
    p: "h1 = h\<lparr>queue := queue h @ P\<rparr>" and
    pn: "\<forall>e\<in>set P. \<exists>s\<in>set [''.mean_'', ''.upper_'', ''.count_'', ''.sum_'', ''.sum_squares_''].
            \<exists>t. fst e = name_timer c @ k @ s @ str_int t"
    by blast
  have "emitted c h1 = emitted c h"
    by (simp add: p)
  from enqueue_timer_full_queue [OF b this] obtain A B where
    f: "h' = h1\<lparr>queue := queue h1 @ A
        @ opt (statsd_timer_count c)
            (emitted c h (name_timer c @ k @ ''.count'') (IntStat (int (length (sort v)))) stime k)
        @ opt (statsd_timer_count_ps c)
            (emitted c h (name_timer c @ k @ ''.count_ps'')
               (FloatStat (real (length (sort v)) / statsd_flush_time c)) stime k)
        @ B\<rparr>" and
    fn: "\<forall>e\<in>set (A @ B). \<exists>s\<in>set [''.mean'', ''.upper'', ''.lower'', ''.median'', ''.sum'',
            ''.sum_squares'', ''.std'']. fst e = name_timer c @ k @ s"
    by blast
  from f p have "h' = h\<lparr>queue := queue h @ P @ A
        @ opt (statsd_timer_count c)
            (emitted c h (name_timer c @ k @ ''.count'') (IntStat (int (length v))) stime k)
        @ opt (statsd_timer_count_ps c)
            (emitted c h (name_timer c @ k @ ''.count_ps'')
               (FloatStat (real (length v) / statsd_flush_time c)) stime k)
        @ B\<rparr>"
    by simp
  with pn fn show ?thesis
    by blast
qed

lemma enqueue_timer_only_queue:
  assumes "enqueue_timer c stime k v h = Inr h'"
  shows "\<exists>q. h' = h\<lparr>queue := q\<rparr>"
proof (cases "v = []")
  case True
  with assms show ?thesis
    by (auto simp: enqueue_timer_def enqueue_emitted)
next
  case False
  from enqueue_timer_nonempty [OF False assms] show ?thesis
    by blast
qed







text \<open>
  With a flush time other than zero and thresholds between 0 and 100 the loop body of
  \<^verbatim>\<open>enqueue_timers\<close> does not raise.
\<close>

lemma thresh_idx_ge:
  assumes "0 \<le> pct"
  shows "0 \<le> \<lfloor>pct / 100 * real n\<rfloor>"
  using assms by simp

lemma enqueue_timer_pct_completes:
  assumes "length cs = length v" "length qs = length v" "0 \<le> pct" "pct \<le> 100"
  shows "\<exists>h'. enqueue_timer_pct c k stime v cs qs pct h = Inr h'"
proof -
  define idx where "idx = \<lfloor>pct / 100 * real (length v)\<rfloor>"
  have le: "idx \<le> int (length v)" and ge: "0 \<le> idx"
    unfolding idx_def using assms thresh_idx_le thresh_idx_ge by simp_all
  show ?thesis
  proof (cases "idx = 0")
    case True
    then show ?thesis
      unfolding enqueue_timer_pct_def idx_def [symmetric] Let_def by simp
  next
    case False
    with le ge have r: "0 \<le> idx - 1" "idx - 1 < int (length v)"
      by simp_all
    then have n: "py_nth cs (idx - 1) = Inr (cs ! nat (idx - 1))"
      "py_nth qs (idx - 1) = Inr (qs ! nat (idx - 1))"
      "py_nth v (idx - 1) = Inr (v ! nat (idx - 1))"
      using assms by (simp_all add: py_nth_in_range)
    show ?thesis
      unfolding enqueue_timer_pct_def idx_def [symmetric] Let_def using False
      by (simp add: n ebind_def)
  qed
qed

lemma enqueue_timer_pcts_completes:
  assumes "length cs = length v" "length qs = length v" "\<forall>pct\<in>set pcts. 0 \<le> pct \<and> pct \<le> 100"
  shows "\<exists>h'. efold (enqueue_timer_pct c k stime v cs qs) pcts h = Inr h'"
  using assms(3)
proof (induction pcts arbitrary: h)
  case Nil
  then show ?case by simp
next
  case (Cons pct pcts)
  then obtain h1 where "enqueue_timer_pct c k stime v cs qs pct h = Inr h1"
    using enqueue_timer_pct_completes [OF assms(1,2), of pct c k stime h] by auto
  with Cons show ?case
    by (simp add: ebind_def)
qed

lemma enqueue_timer_full_completes:
  assumes "v \<noteq> []" "length cs = length v" "length qs = length v"
    and "statsd_flush_time c \<noteq> 0"
  shows "\<exists>h'. enqueue_timer_full c k stime v cs qs h = Inr h'"
proof -
  from assms have r: "0 \<le> int (length v) - 1" "int (length v) - 1 < int (length v)"
    by (simp_all add: Suc_leI)
  then have n: "py_nth cs (int (length v) - 1) = Inr (cs ! nat (int (length v) - 1))"
      "py_nth qs (int (length v) - 1) = Inr (qs ! nat (int (length v) - 1))"
    using assms by (simp_all add: py_nth_in_range)
  show ?thesis
    unfolding enqueue_timer_full_def Let_def using assms(4)
    by (simp add: n ebind_def)
qed

lemma enqueue_timer_completes:
  assumes "statsd_flush_time c \<noteq> 0"
    and "\<forall>pct\<in>set (statsd_percentile_thresholds c). 0 \<le> pct \<and> pct \<le> 100"
  shows "\<exists>h'. enqueue_timer c stime k v h = Inr h'"
proof (cases "v = []")
  case True
  then show ?thesis
    by (simp add: enqueue_timer_def)
next
  case False
  obtain cs qs where cq: "cumulate (sort v) = (cs, qs)"
    by (cases "cumulate (sort v)")
  from False have ne: "sort v \<noteq> []"
    by (metis length_0_conv length_sort)
  from False have "0 < length (sort v)"
    by simp
  from cumulate_nth(1,2) [OF ne this] cq have l: "length cs = length (sort v)" "length qs = length (sort v)"
    by simp_all
  from enqueue_timer_pcts_completes [OF l assms(2)] obtain h1 where
    a: "efold (enqueue_timer_pct c k stime (sort v) cs qs) (statsd_percentile_thresholds c) h = Inr h1"
    by blast
  from enqueue_timer_full_completes [OF ne l assms(1)] obtain h' where
    "enqueue_timer_full c k stime (sort v) cs qs h1 = Inr h'"
    by blast
  with a False cq show ?thesis
    by (simp add: enqueue_timer_def ebind_def)
qed


subsection \<open>The flush tick\<close>

lemma enqueue_timers_loop:
  assumes "efold (\<lambda>(k, v) (ret, h).
              ebind (enqueue_timer c stime k v h) (\<lambda>h1.
                Inr (ret + 1, mutate Timers (h1\<lparr>timers := AList.update k [] (timers h1)\<rparr>))))
       items (ret, h) = Inr (ret', h')"
  shows "gauges h' = gauges h \<and> counters h' = counters h \<and> sets h' = sets h
     \<and> keys_seen h' = keys_seen h \<and> lock h' = lock h
     \<and> map_of (timers h') = (\<lambda>x. if x \<in> fst ` set items then Some [] else map_of (timers h) x)
     \<and> fst ` set (timers h') = fst ` set (timers h) \<union> fst ` set items"
  using assms
proof (induction items arbitrary: ret h)
  case Nil
  then show ?case
    by (simp add: fun_eq_iff)
next
  case (Cons kv items)
  obtain k v where kv: "kv = (k, v)"
    by (cases kv)
  from Cons.prems obtain h1 where
    a: "enqueue_timer c stime k v h = Inr h1" and
    b: "efold (\<lambda>(k, v) (ret, h).
              ebind (enqueue_timer c stime k v h) (\<lambda>h1.
                Inr (ret + 1, mutate Timers (h1\<lparr>timers := AList.update k [] (timers h1)\<rparr>))))
       items (ret + 1, mutate Timers (h1\<lparr>timers := AList.update k [] (timers h1)\<rparr>)) = Inr (ret', h')"
    by (cases "enqueue_timer c stime k v h") (simp_all add: kv ebind_def)
  from enqueue_timer_only_queue [OF a] obtain q where h1: "h1 = h\<lparr>queue := q\<rparr>"
    by blast
  define h2 where "h2 = mutate Timers (h1\<lparr>timers := AList.update k [] (timers h1)\<rparr>)"
  have f: "gauges h2 = gauges h" "counters h2 = counters h" "sets h2 = sets h"
    "keys_seen h2 = keys_seen h" "lock h2 = lock h" "timers h2 = AList.update k [] (timers h)"
    by (simp_all add: h2_def h1)
  note ih = Cons.IH [OF b [folded h2_def]]
  have m: "map_of (timers h') = (\<lambda>x. if x \<in> fst ` set (kv # items) then Some [] else map_of (timers h) x)"
    using ih by (simp add: f kv update_conv' fun_eq_iff)
  have d: "fst ` set (timers h') = fst ` set (timers h) \<union> fst ` set (kv # items)"
    using ih by (auto simp: f kv dom_update)
  from ih m d show ?case
    by (simp add: f)
qed

lemma enqueue_timers_resets:
  assumes "enqueue_timers c stime h = Inr (n, h')"
  shows "gauges h' = gauges h \<and> counters h' = counters h \<and> sets h' = sets h
     \<and> keys_seen h' = keys_seen h \<and> lock h' = lock h
     \<and> (\<forall>k v. map_of (timers h') k = Some v \<longrightarrow> v = [])
     \<and> fst ` set (timers h') = fst ` set (timers h)"
proof -
  note l = enqueue_timers_loop [OF assms [unfolded enqueue_timers_def]]
  have "v = []" if "map_of (timers h') k = Some v" for k v
  proof (cases "k \<in> fst ` set (timers h)")
    case True
    with l that show ?thesis
      by simp
  next
    case False
    then have "map_of (timers h) k = None"
      by (simp add: map_of_eq_None_iff)
    with l that False show ?thesis
      by simp
  qed
  with l show ?thesis
    by auto
qed

lemma enqueue_counter_only_queue:
  assumes "enqueue_counter c stime k v h = Inr h'"
  shows "\<exists>q. h' = h\<lparr>queue := q\<rparr>"
proof -
  from assms have "statsd_flush_time c \<noteq> 0"
    by (auto simp: enqueue_counter_def Let_def)
  with assms show ?thesis
    by (auto simp: enqueue_counter_def Let_def enqueue_emitted)
qed

lemma enqueue_counters_loop:
  assumes "efold (\<lambda>(k, v) (ret, h).
              ebind (enqueue_counter c stime k v h) (\<lambda>h1.
                Inr (ret + 1, mutate Counters (h1\<lparr>counters := AList.update k 0 (counters h1)\<rparr>))))
       items (ret, h) = Inr (ret', h')"
  shows "gauges h' = gauges h \<and> timers h' = timers h \<and> sets h' = sets h
     \<and> keys_seen h' = keys_seen h \<and> lock h' = lock h
     \<and> map_of (counters h') = (\<lambda>x. if x \<in> fst ` set items then Some 0 else map_of (counters h) x)
     \<and> fst ` set (counters h') = fst ` set (counters h) \<union> fst ` set items"
  using assms
proof (induction items arbitrary: ret h)
  case Nil
  then show ?case
    by (simp add: fun_eq_iff)
next
  case (Cons kv items)
  obtain k v where kv: "kv = (k, v)"
    by (cases kv)
  from Cons.prems obtain h1 where
    a: "enqueue_counter c stime k v h = Inr h1" and
    b: "efold (\<lambda>(k, v) (ret, h).
              ebind (enqueue_counter c stime k v h) (\<lambda>h1.
                Inr (ret + 1, mutate Counters (h1\<lparr>counters := AList.update k 0 (counters h1)\<rparr>))))
       items (ret + 1, mutate Counters (h1\<lparr>counters := AList.update k 0 (counters h1)\<rparr>)) = Inr (ret', h')"
    by (cases "enqueue_counter c stime k v h") (simp_all add: kv ebind_def)
  from enqueue_counter_only_queue [OF a] obtain q where h1: "h1 = h\<lparr>queue := q\<rparr>"
    by blast
  define h2 where "h2 = mutate Counters (h1\<lparr>counters := AList.update k 0 (counters h1)\<rparr>)"
  have f: "gauges h2 = gauges h" "timers h2 = timers h" "sets h2 = sets h"
    "keys_seen h2 = keys_seen h" "lock h2 = lock h" "counters h2 = AList.update k 0 (counters h)"
    by (simp_all add: h2_def h1)
  note ih = Cons.IH [OF b [folded h2_def]]
  have m: "map_of (counters h') = (\<lambda>x. if x \<in> fst ` set (kv # items) then Some 0 else map_of (counters h) x)"
    using ih by (simp add: f kv update_conv' fun_eq_iff)
  have d: "fst ` set (counters h') = fst ` set (counters h) \<union> fst ` set (kv # items)"
    using ih by (auto simp: f kv dom_update)
  from ih m d show ?case
    by (simp add: f)
qed

lemma enqueue_counters_resets:
  assumes "enqueue_counters c stime h = Inr (n, h')"
  shows "gauges h' = gauges h \<and> timers h' = timers h \<and> sets h' = sets h
     \<and> keys_seen h' = keys_seen h \<and> lock h' = lock h
     \<and> (\<forall>k v. map_of (counters h') k = Some v \<longrightarrow> v = 0)
     \<and> fst ` set (counters h') = fst ` set (counters h)"
proof -
  note l = enqueue_counters_loop [OF assms [unfolded enqueue_counters_def]]
  have "v = 0" if "map_of (counters h') k = Some v" for k v
  proof (cases "k \<in> fst ` set (counters h)")
    case True
    with l that show ?thesis
      by simp
  next
    case False
    then have "map_of (counters h) k = None"
      by (simp add: map_of_eq_None_iff)
    with l that False show ?thesis
      by simp
  qed
  with l show ?thesis
    by auto
qed

lemma enqueue_sets_loop:
  assumes "fold (\<lambda>(k, v) (ret, h).
             (let h1 = enqueue c (name_set c @ k @ ''.count'') (IntStat (int (card v))) stime (Some k) h
              in (ret + 1, mutate Sets (h1\<lparr>sets := AList.update k {} (sets h1)\<rparr>))))
       items (ret, h) = (ret', h')"
  shows "gauges h' = gauges h \<and> timers h' = timers h \<and> counters h' = counters h
     \<and> keys_seen h' = keys_seen h \<and> lock h' = lock h
     \<and> map_of (sets h') = (\<lambda>x. if x \<in> fst ` set items then Some {} else map_of (sets h) x)
     \<and> fst ` set (sets h') = fst ` set (sets h) \<union> fst ` set items"
  using assms
proof (induction items arbitrary: ret h)
  case Nil
  then show ?case
    by (simp add: fun_eq_iff)
next
  case (Cons kv items)
  obtain k v where kv: "kv = (k, v)"
    by (cases kv)
  define h1 where "h1 = enqueue c (name_set c @ k @ ''.count'') (IntStat (int (card v))) stime (Some k) h"
  define h2 where "h2 = mutate Sets (h1\<lparr>sets := AList.update k {} (sets h1)\<rparr>)"
  have f: "gauges h2 = gauges h" "timers h2 = timers h" "counters h2 = counters h"
    "keys_seen h2 = keys_seen h" "lock h2 = lock h" "sets h2 = AList.update k {} (sets h)"
    by (simp_all add: h2_def h1_def)
  from Cons.prems have b: "fold (\<lambda>(k, v) (ret, h).
             (let h1 = enqueue c (name_set c @ k @ ''.count'') (IntStat (int (card v))) stime (Some k) h
              in (ret + 1, mutate Sets (h1\<lparr>sets := AList.update k {} (sets h1)\<rparr>))))
       items (ret + 1, h2) = (ret', h')"
    by (simp add: kv h2_def h1_def Let_def)
  note ih = Cons.IH [OF b]
  have m: "map_of (sets h') = (\<lambda>x. if x \<in> fst ` set (kv # items) then Some {} else map_of (sets h) x)"
    using ih by (simp add: f kv update_conv' fun_eq_iff)
  have d: "fst ` set (sets h') = fst ` set (sets h) \<union> fst ` set (kv # items)"
    using ih by (auto simp: f kv dom_update)
  from ih m d show ?case
    by (simp add: f)
qed

lemma enqueue_sets_resets:
  assumes "enqueue_sets c stime h = (n, h')"
  shows "gauges h' = gauges h \<and> timers h' = timers h \<and> counters h' = counters h
     \<and> keys_seen h' = keys_seen h \<and> lock h' = lock h
     \<and> (\<forall>k v. map_of (sets h') k = Some v \<longrightarrow> v = {})
     \<and> fst ` set (sets h') = fst ` set (sets h)"
proof -
  note l = enqueue_sets_loop [OF assms [unfolded enqueue_sets_def]]
  have "v = {}" if "map_of (sets h') k = Some v" for k v
  proof (cases "k \<in> fst ` set (sets h)")
    case True
    with l that show ?thesis
      by simp
  next
    case False
    then have "map_of (sets h) k = None"
      by (simp add: map_of_eq_None_iff)
    with l that False show ?thesis
      by simp
  qed
  with l show ?thesis
    by auto
qed

lemma enqueue_gauges_loop:
  "\<exists>q. snd (fold (\<lambda>(k, v) (ret, h).
             if \<not> onlychanged_gauges c \<or> k \<in> set (keys (keys_seen h))
             then (ret + 1, enqueue c (name_gauge c @ k) (FloatStat v) stime (Some k) h)
             else (ret, h))
       items (ret, h)) = h\<lparr>queue := q\<rparr>"
proof (induction items arbitrary: ret h)
  case Nil
  show ?case
    by (auto intro: exI [of _ "queue h"])
next
  case (Cons kv items)
  obtain k v where kv: "kv = (k, v)"
    by (cases kv)
  show ?case
  proof (cases "\<not> onlychanged_gauges c \<or> k \<in> set (keys (keys_seen h))")
    case True
    from Cons.IH [of "ret + 1" "enqueue c (name_gauge c @ k) (FloatStat v) stime (Some k) h"]
    show ?thesis
      using True by (auto simp: kv enqueue_emitted)
  next
    case False
    from Cons.IH [of ret h] show ?thesis
      using False by (auto simp: kv)
  qed
qed

lemma enqueue_gauges_only_queue:
  assumes "enqueue_gauges c stime h = (n, h')"
  shows "\<exists>q. h' = h\<lparr>queue := q\<rparr>"
proof -
  from assms have "h' = snd (enqueue_gauges c stime h)"
    by simp
  then show ?thesis
    unfolding enqueue_gauges_def by (simp only: enqueue_gauges_loop)
qed

lemma delete_loops_keep:
  "gauges (fold (\<lambda>k h. mutate Timers (h\<lparr>timers := AList.delete k (timers h)\<rparr>)) ks h) = gauges h"
  "gauges (fold (\<lambda>k h. mutate Counters (h\<lparr>counters := AList.delete k (counters h)\<rparr>)) ks h) = gauges h"
  "gauges (fold (\<lambda>k h. mutate Sets (h\<lparr>sets := AList.delete k (sets h)\<rparr>)) ks h) = gauges h"
  by (induction ks arbitrary: h) simp_all

lemma reap_gauges: "gauges (reap c h) = gauges h"
  by (simp add: reap_def Let_def delete_loops_keep)

text \<open>The steps of a tick that completes.\<close>

lemma tick_steps:
  assumes "tick c stime h = Inr h'"
  obtains n1 h4 n2 h5 n3 h6 n4 h7 where
    "enqueue_timers c stime (reap c (acquire h)) = Inr (n1, h4)"
    "enqueue_counters c stime h4 = Inr (n2, h5)"
    "enqueue_gauges c stime h5 = (n3, h6)"
    "enqueue_sets c stime h6 = (n4, h7)"
    "h' = release (mutate KeysSeen
       ((enqueue c (name_global c @ ''numStats'') (IntStat (n1 + n2 + n3 + n4)) stime None h7)
          \<lparr>keys_seen := filter (\<lambda>(k, md). k \<in> set (keys (timers h4)) \<union> set (keys (counters h5))
                                         \<union> set (keys (gauges h6)) \<union> set (keys (sets h7)))
              (keys_seen h7)\<rparr>))"
proof -
  from assms obtain n1 h4 where a: "enqueue_timers c stime (reap c (acquire h)) = Inr (n1, h4)"
    by (cases "enqueue_timers c stime (reap c (acquire h))") (auto simp: tick_def Let_def ebind_def)
  from assms a obtain n2 h5 where b: "enqueue_counters c stime h4 = Inr (n2, h5)"
    by (cases "enqueue_counters c stime h4") (auto simp: tick_def Let_def ebind_def)
  obtain n3 h6 where g: "enqueue_gauges c stime h5 = (n3, h6)"
    by (cases "enqueue_gauges c stime h5")
  obtain n4 h7 where s: "enqueue_sets c stime h6 = (n4, h7)"
    by (cases "enqueue_sets c stime h6")
  from assms a b g s have "h' = release (mutate KeysSeen
       ((enqueue c (name_global c @ ''numStats'') (IntStat (n1 + n2 + n3 + n4)) stime None h7)
          \<lparr>keys_seen := filter (\<lambda>(k, md). k \<in> set (keys (timers h4)) \<union> set (keys (counters h5))
                                         \<union> set (keys (gauges h6)) \<union> set (keys (sets h7)))
              (keys_seen h7)\<rparr>))"
    by (simp add: tick_def Let_def ebind_def)
  with a b g s that show ?thesis
    by blast
qed

text \<open>
  Claim C3. After a flush tick that completes, every counter left in the map is 0, every timer
  list is empty, every set is empty, and the gauges are what they were when the tick started.
\<close>

theorem tick_resets:
  assumes "tick c stime h = Inr h'"
  shows "(\<forall>k n. map_of (counters h') k = Some n \<longrightarrow> n = 0)
     \<and> (\<forall>k v. map_of (timers h') k = Some v \<longrightarrow> v = [])
     \<and> (\<forall>k s. map_of (sets h') k = Some s \<longrightarrow> s = {})
     \<and> gauges h' = gauges h"
proof -
  from assms obtain n1 h4 n2 h5 n3 h6 n4 h7 where
    t: "enqueue_timers c stime (reap c (acquire h)) = Inr (n1, h4)" and
    cn: "enqueue_counters c stime h4 = Inr (n2, h5)" and
    g: "enqueue_gauges c stime h5 = (n3, h6)" and
    s: "enqueue_sets c stime h6 = (n4, h7)" and
    h': "h' = release (mutate KeysSeen
       ((enqueue c (name_global c @ ''numStats'') (IntStat (n1 + n2 + n3 + n4)) stime None h7)
          \<lparr>keys_seen := filter (\<lambda>(k, md). k \<in> set (keys (timers h4)) \<union> set (keys (counters h5))
                                         \<union> set (keys (gauges h6)) \<union> set (keys (sets h7)))
              (keys_seen h7)\<rparr>))"
    by (rule tick_steps)
  note rt = enqueue_timers_resets [OF t]
  note rc = enqueue_counters_resets [OF cn]
  from enqueue_gauges_only_queue [OF g] obtain q where h6: "h6 = h5\<lparr>queue := q\<rparr>"
    by blast
  note rs = enqueue_sets_resets [OF s]
  have f: "timers h' = timers h7" "counters h' = counters h7" "sets h' = sets h7" "gauges h' = gauges h7"
    by (simp_all add: h')
  have "timers h' = timers h4"
    using rc rs by (simp add: f h6)
  then have 1: "\<forall>k v. map_of (timers h') k = Some v \<longrightarrow> v = []"
    using rt by simp
  have "counters h' = counters h5"
    using rs by (simp add: f h6)
  then have 2: "\<forall>k n. map_of (counters h') k = Some n \<longrightarrow> n = 0"
    using rc by simp
  have 3: "\<forall>k s. map_of (sets h') k = Some s \<longrightarrow> s = {}"
    using rs by (simp add: f)
  have 4: "gauges h' = gauges h"
    using rt rc rs by (simp add: f h6 reap_gauges)
  from 1 2 3 4 show ?thesis
    by blast
qed

text \<open>
  With a flush time other than zero and thresholds between 0 and 100 nothing in a tick
  raises: the tick completes.
\<close>

lemma enqueue_timers_loop_completes:
  assumes "statsd_flush_time c \<noteq> 0"
    and "\<forall>pct\<in>set (statsd_percentile_thresholds c). 0 \<le> pct \<and> pct \<le> 100"
  shows "\<exists>r. efold (\<lambda>(k, v) (ret, h).
              ebind (enqueue_timer c stime k v h) (\<lambda>h1.
                Inr (ret + 1, mutate Timers (h1\<lparr>timers := AList.update k [] (timers h1)\<rparr>))))
       items (ret, h) = Inr r"
proof (induction items arbitrary: ret h)
  case Nil
  show ?case by simp
next
  case (Cons kv items)
  obtain k v where kv: "kv = (k, v)"
    by (cases kv)
  from enqueue_timer_completes [OF assms] obtain h1 where
    "enqueue_timer c stime k v h = Inr h1"
    by blast
  with Cons [of "ret + 1" "mutate Timers (h1\<lparr>timers := AList.update k [] (timers h1)\<rparr>)"]
  show ?case
    by (simp add: kv ebind_def)
qed

lemma enqueue_counters_loop_completes:
  assumes "statsd_flush_time c \<noteq> 0"
  shows "\<exists>r. efold (\<lambda>(k, v) (ret, h).
              ebind (enqueue_counter c stime k v h) (\<lambda>h1.
                Inr (ret + 1, mutate Counters (h1\<lparr>counters := AList.update k 0 (counters h1)\<rparr>))))
       items (ret, h) = Inr r"
proof (induction items arbitrary: ret h)
  case Nil
  show ?case by simp
next
  case (Cons kv items)
  obtain k v where kv: "kv = (k, v)"
    by (cases kv)
  from assms obtain h1 where "enqueue_counter c stime k v h = Inr h1"
    by (simp add: enqueue_counter_def Let_def)
  with Cons [of "ret + 1" "mutate Counters (h1\<lparr>counters := AList.update k 0 (counters h1)\<rparr>)"]
  show ?case
    by (simp add: kv ebind_def)
qed

lemma tick_completes:
  assumes "statsd_flush_time c \<noteq> 0"
    and "\<forall>pct\<in>set (statsd_percentile_thresholds c). 0 \<le> pct \<and> pct \<le> 100"
  shows "\<exists>h'. tick c stime h = Inr h'"
proof -
  define h3 where "h3 = reap c (acquire h)"
  from enqueue_timers_loop_completes [OF assms, of stime "timers h3" 0 h3] obtain r1 where
    "enqueue_timers c stime h3 = Inr r1"
    unfolding enqueue_timers_def by blast
  then obtain n1 h4 where a: "enqueue_timers c stime h3 = Inr (n1, h4)"
    by (cases r1) simp
  from enqueue_counters_loop_completes [OF assms(1), of stime "counters h4" 0 h4] obtain r2 where
    "enqueue_counters c stime h4 = Inr r2"
    unfolding enqueue_counters_def by blast
  then obtain n2 h5 where b: "enqueue_counters c stime h4 = Inr (n2, h5)"
    by (cases r2) simp
  obtain n3 h6 where g: "enqueue_gauges c stime h5 = (n3, h6)"
    by (cases "enqueue_gauges c stime h5")
  obtain n4 h7 where s: "enqueue_sets c stime h6 = (n4, h7)"
    by (cases "enqueue_sets c stime h6")
  show ?thesis
    unfolding tick_def Let_def h3_def [symmetric]
    by (simp add: ebind_def a b g s)
qed

text \<open>
  A tick on a state with one timer, one counter, one gauge and one set completes; the gauge
  keeps its value 5/2.
\<close>

theorem tick_resets_witness:
  "\<exists>h'. tick cfg0 7 (init\<lparr>timers := [(''t'', [2, 1])], counters := [(''c'', 8)],
                          gauges := [(''g'', 5 / 2)], sets := [(''s'', {''a''})]\<rparr>) = Inr h'
     \<and> (\<forall>k n. map_of (counters h') k = Some n \<longrightarrow> n = 0)
     \<and> (\<forall>k v. map_of (timers h') k = Some v \<longrightarrow> v = [])
     \<and> (\<forall>k s. map_of (sets h') k = Some s \<longrightarrow> s = {})
     \<and> gauges h' = [(''g'', 5 / 2)]"
proof -
  have g: "statsd_flush_time cfg0 \<noteq> 0"
    "\<forall>pct\<in>set (statsd_percentile_thresholds cfg0). 0 \<le> pct \<and> pct \<le> 100"
    by (simp_all add: cfg0_def)
  from tick_completes [OF g] obtain h' where
    h': "tick cfg0 7 (init\<lparr>timers := [(''t'', [2, 1])], counters := [(''c'', 8)],
                          gauges := [(''g'', 5 / 2)], sets := [(''s'', {''a''})]\<rparr>) = Inr h'"
    by blast
  from tick_resets [OF h'] h' show ?thesis
    by (simp add: init_def)
qed

subsection \<open>Handling a line\<close>



















subsection \<open>The keys seen\<close>

















subsection \<open>Gauge persistence\<close>
















end
